theory Spec2Isabelle
  imports Complex_Main "HOL-Library.Word"
begin

unbundle bit_operations_syntax

section \<open>Data model of \<open>midi_encoder.py\<close>\<close>

text \<open>
  The exceptions that the encoder can raise. \<open>PatternError\<close> and
  \<open>NibbleProcessingError\<close> are the two classes of the module; \<open>ValueError\<close>,
  \<open>KeyError\<close> and \<open>IndexError\<close> are the Python built-ins behind the enum
  constructor \<open>NibbleTarget(ch)\<close>, \<open>set.remove\<close> / \<open>params[k]\<close> and
  \<open>self.pattern[i]\<close>.
\<close>

datatype error = PatternError | NibbleProcessingError | ValueError | KeyError | IndexError

text \<open>
  The enum \<open>NibbleTarget\<close>. Its member \<open>LENGTH\<close> is written \<open>LENGTH_TARGET\<close>, since
  \<open>LENGTH\<close> is the type-length syntax of the word library.
\<close>

datatype NibbleTarget = CHANNEL | NOTE | VELOCITY | TIMING | LENGTH_TARGET

text \<open>The enum lookup by value, \<open>NibbleTarget(ch)\<close>: a foreign character raises.\<close>

definition NibbleTarget_of :: "char \<Rightarrow> error + NibbleTarget" where
  "NibbleTarget_of ch =
     (if ch = CHR ''c'' then Inr CHANNEL
      else if ch = CHR ''n'' then Inr NOTE
      else if ch = CHR ''v'' then Inr VELOCITY
      else if ch = CHR ''t'' then Inr TIMING
      else if ch = CHR ''l'' then Inr LENGTH_TARGET
      else Inl ValueError)"

text \<open>The value of an enum member, the symbol that stands for it in a pattern.\<close>

definition symbol_of :: "NibbleTarget \<Rightarrow> char" where
  "symbol_of t =
     (case t of CHANNEL \<Rightarrow> CHR ''c'' | NOTE \<Rightarrow> CHR ''n'' | VELOCITY \<Rightarrow> CHR ''v''
      | TIMING \<Rightarrow> CHR ''t'' | LENGTH_TARGET \<Rightarrow> CHR ''l'')"

text \<open>
  Modelled from the spec: \<open>util.Int4\<close> is imported by the module but its declaration is
  not part of the sources. The spec describes a nibble as an unsigned integer in the
  range 0 to 15, so it is a 4-bit word and \<open>int(n)\<close> is \<open>uint n\<close>.
\<close>

type_synonym Int4 = "4 word"

record Remainder =
  bits :: string
  pattern_position :: nat

record MessageComponent =
  message_id :: nat
  component_type :: NibbleTarget
  cvalue :: int

text \<open>
  \<open>MessageComponent.__eq__\<close> (and \<open>__hash__\<close>) look at the message id and the
  component type only, never at the value.
\<close>

definition MessageComponent_eq :: "MessageComponent \<Rightarrow> MessageComponent \<Rightarrow> bool" where
  "MessageComponent_eq a b =
     (message_id a = message_id b \<and> component_type a = component_type b)"

text \<open>
  A Python \<open>set\<close> of components is a list without two elements that are equal under
  \<open>MessageComponent_eq\<close>. \<open>add\<close> keeps the element already there, \<open>remove\<close> raises
  \<open>KeyError\<close> when nothing equal is in the set, \<open>update\<close> adds one element after the
  other.
\<close>

definition set_add :: "MessageComponent list \<Rightarrow> MessageComponent \<Rightarrow> MessageComponent list" where
  "set_add s c = (if list_ex (\<lambda>d. MessageComponent_eq d c) s then s else s @ [c])"

definition set_remove ::
  "MessageComponent list \<Rightarrow> MessageComponent \<Rightarrow> error + MessageComponent list" where
  "set_remove s c =
     (if list_ex (\<lambda>d. MessageComponent_eq d c) s
      then Inr (filter (\<lambda>d. \<not> MessageComponent_eq d c) s)
      else Inl KeyError)"

definition set_update ::
  "MessageComponent list \<Rightarrow> MessageComponent list \<Rightarrow> MessageComponent list" where
  "set_update s new = foldl set_add s new"

text \<open>
  A \<open>mido.Message\<close> of type \<open>note_on\<close> or \<open>note_off\<close>. The constructor of the library
  checks that the channel is in 0..15 and that note and velocity are in 0..127, and
  raises \<open>ValueError\<close> otherwise; the time is any number.
\<close>

datatype MessageType = note_on | note_off

record Message =
  msg_type :: MessageType
  channel :: int
  note_num :: int
  velocity :: int
  time :: rat

definition mido_Message :: "MessageType \<Rightarrow> int \<Rightarrow> int \<Rightarrow> int \<Rightarrow> rat \<Rightarrow> error + Message" where
  "mido_Message ty ch n v t =
     (if 0 \<le> ch \<and> ch \<le> 15 \<and> 0 \<le> n \<and> n \<le> 127 \<and> 0 \<le> v \<and> v \<le> 127
      then Inr \<lparr>msg_type = ty, channel = ch, note_num = n, velocity = v, time = t\<rparr>
      else Inl ValueError)"

record MidiEncoder =
  pattern :: string

section \<open>Construction\<close>

definition MidiEncoder_init :: "string \<Rightarrow> error + MidiEncoder" where
  "MidiEncoder_init p =
     (if p = [] \<or> \<not> list_all (\<lambda>c. c \<in> set ''cnvtl'') p
      then Inl PatternError
      else Inr \<lparr>pattern = p\<rparr>)"

section \<open>The field accumulator: \<open>_create_message_components\<close>\<close>

text \<open>
  The \<open>for i, nibble in enumerate(pattern_nibbles)\<close> loop, with the index \<open>i\<close> and the
  set built so far as loop state.
\<close>

fun components_loop ::
  "MidiEncoder \<Rightarrow> nat \<Rightarrow> nat \<Rightarrow> Int4 list \<Rightarrow> MessageComponent list
     \<Rightarrow> error + MessageComponent list" where
  "components_loop self mid i [] components = Inr components"
| "components_loop self mid i (nibble # rest) components =
     (if length (pattern self) \<le> i then Inl IndexError
      else case NibbleTarget_of (pattern self ! i) of
        Inl e \<Rightarrow> Inl e
      | Inr target \<Rightarrow>
          (case find (\<lambda>c. message_id c = mid \<and> component_type c = target) components of
             Some existing \<Rightarrow>
               (let new_value = push_bit 4 (cvalue existing) OR uint nibble in
                case set_remove components existing of
                  Inl e \<Rightarrow> Inl e
                | Inr components' \<Rightarrow>
                    components_loop self mid (i + 1) rest
                      (set_add components'
                         \<lparr>message_id = mid, component_type = target, cvalue = new_value\<rparr>))
           | None \<Rightarrow>
               components_loop self mid (i + 1) rest
                 (set_add components
                    \<lparr>message_id = mid, component_type = target, cvalue = uint nibble\<rparr>)))"

definition create_message_components ::
  "MidiEncoder \<Rightarrow> Int4 list \<Rightarrow> nat \<Rightarrow> error + MessageComponent list" where
  "create_message_components self pattern_nibbles mid =
     components_loop self mid 0 pattern_nibbles []"

section \<open>The duration table: \<open>_calculate_note_length\<close>\<close>

text \<open>
  The durations are dyadic fractions, which the floating-point literals of the source
  denote exactly; no arithmetic is done on them.
\<close>

definition note_durations :: "(int \<times> rat) list" where
  "note_durations =
     [(0, 1), (1, 3/4), (2, 1/2), (3, 3/8), (4, 1/4), (5, 3/16), (6, 1/8), (7, 3/32),
      (8, 1/16), (9, 3/64), (10, 1/32), (11, 3/128), (12, 1/64), (13, 3/256),
      (14, 1/128), (15, 3/512)]"

definition calculate_note_length :: "int \<Rightarrow> rat" where
  "calculate_note_length length_value =
     (case map_of note_durations length_value of Some d \<Rightarrow> d | None \<Rightarrow> 1)"

section \<open>The record finalizer: \<open>_create_message_pairs_from_components\<close>\<close>

definition bind_err :: "error + 'a \<Rightarrow> ('a \<Rightarrow> error + 'b) \<Rightarrow> error + 'b" where
  "bind_err r f = (case r of Inl e \<Rightarrow> Inl e | Inr x \<Rightarrow> f x)"

text \<open>The dict comprehension: a later component overwrites an earlier one of its type.\<close>

definition params_of :: "MessageComponent list \<Rightarrow> (NibbleTarget \<rightharpoonup> int)" where
  "params_of msg_components =
     foldl (\<lambda>m c. m(component_type c \<mapsto> cvalue c)) Map.empty msg_components"

definition dict_get :: "(NibbleTarget \<rightharpoonup> int) \<Rightarrow> NibbleTarget \<Rightarrow> error + int" where
  "dict_get params k = (case params k of None \<Rightarrow> Inl KeyError | Some v \<Rightarrow> Inr v)"

text \<open>The body of the loop over the sorted message ids, for one id.\<close>

definition message_pair ::
  "MessageComponent list \<Rightarrow> nat \<Rightarrow> error + (Message \<times> Message) option" where
  "message_pair components mid =
     (let msg_components = filter (\<lambda>c. message_id c = mid) components in
      if list_all (\<lambda>t. t \<in> set (map component_type msg_components))
           [CHANNEL, NOTE, VELOCITY, TIMING, LENGTH_TARGET]
      then
        (let params = params_of msg_components in
         bind_err (dict_get params CHANNEL) (\<lambda>c.
         bind_err (dict_get params NOTE) (\<lambda>n.
         bind_err (dict_get params VELOCITY) (\<lambda>v.
         bind_err (dict_get params TIMING) (\<lambda>t.
         bind_err (mido_Message note_on (min c 15) (min n 127) (min v 127) (of_int t)) (\<lambda>on.
         bind_err (dict_get params CHANNEL) (\<lambda>c'.
         bind_err (dict_get params NOTE) (\<lambda>n'.
         bind_err (dict_get params LENGTH_TARGET) (\<lambda>l.
         bind_err (mido_Message note_off (min c' 15) (min n' 127) 0 (calculate_note_length l))
           (\<lambda>off. Inr (Some (on, off))))))))))))
      else Inr None)"

fun pairs_loop ::
  "MessageComponent list \<Rightarrow> nat list \<Rightarrow> (Message \<times> Message) list
     \<Rightarrow> error + (Message \<times> Message) list" where
  "pairs_loop components [] messages = Inr messages"
| "pairs_loop components (mid # mids) messages =
     (case message_pair components mid of
        Inl e \<Rightarrow> Inl e
      | Inr None \<Rightarrow> pairs_loop components mids messages
      | Inr (Some p) \<Rightarrow> pairs_loop components mids (messages @ [p]))"

definition create_message_pairs_from_components ::
  "MessageComponent list \<Rightarrow> error + (Message \<times> Message) list" where
  "create_message_pairs_from_components components =
     pairs_loop components (sort (remdups (map message_id components))) []"

section \<open>The orchestrator: \<open>encode_chunk\<close>\<close>

text \<open>\<open>format(v, '04b')\<close>: the binary digits, padded with zeros to four characters.\<close>

fun bin_digits :: "nat \<Rightarrow> string" where
  "bin_digits n =
     (if n < 2 then [if n = 0 then CHR ''0'' else CHR ''1'']
      else bin_digits (n div 2) @ [if n mod 2 = 0 then CHR ''0'' else CHR ''1''])"

definition format_04b :: "int \<Rightarrow> string" where
  "format_04b v =
     (if v < 0
      then CHR ''-'' # replicate (3 - length (bin_digits (nat (- v)))) CHR ''0''
             @ bin_digits (nat (- v))
      else replicate (4 - length (bin_digits (nat v))) CHR ''0'' @ bin_digits (nat v))"

text \<open>
  The \<open>while len(nibbles) >= pattern_length\<close> loop. Its state is the deque, the set of
  components and the message id. With an empty pattern the loop never ends, which is the
  value \<open>None\<close>.
\<close>

partial_function (option) encode_loop ::
  "MidiEncoder \<Rightarrow> Int4 list \<Rightarrow> MessageComponent list \<Rightarrow> nat
     \<Rightarrow> (error + Int4 list \<times> MessageComponent list \<times> nat) option" where
  "encode_loop self nibbles components mid =
     (if length (pattern self) \<le> length nibbles
      then
        (case create_message_components self (take (length (pattern self)) nibbles) mid of
           Inl e \<Rightarrow> Some (Inl e)
         | Inr new_components \<Rightarrow>
             encode_loop self (drop (length (pattern self)) nibbles)
               (set_update components new_components) (mid + 1))
      else Some (Inr (nibbles, components, mid)))"

declare encode_loop.simps [code]

text \<open>
  \<open>encode_chunk\<close> returns the messages and the remainder, and leaves the caller's deque
  changed; the model returns the deque as third component of the result.
\<close>

definition encode_chunk ::
  "MidiEncoder \<Rightarrow> Int4 list
     \<Rightarrow> (error + (Message \<times> Message) list \<times> Remainder option \<times> Int4 list) option" where
  "encode_chunk self nibbles =
     (if nibbles = [] then Some (Inl NibbleProcessingError)
      else case encode_loop self nibbles [] 0 of
        None \<Rightarrow> None
      | Some (Inl e) \<Rightarrow> Some (Inl e)
      | Some (Inr (nibbles', components, mid)) \<Rightarrow>
          (case create_message_pairs_from_components components of
             Inl e \<Rightarrow> Some (Inl e)
           | Inr messages \<Rightarrow>
               Some (Inr (messages,
                 (if nibbles' \<noteq> []
                  then Some \<lparr>bits = concat (map (\<lambda>n. format_04b (uint n)) nibbles'),
                             pattern_position =
                               length components mod length (pattern self)\<rparr>
                  else None),
                 nibbles'))))"

section \<open>Abstractions used by the proofs\<close>

text \<open>
  A component set is read through its keys: \<open>lookup_value s mid t\<close> is the value of the
  component of message \<open>mid\<close> and type \<open>t\<close>, found the way the accumulator finds it.
  \<open>merge_step\<close> is the shift-and-merge rule in the words of the specification,
  \<open>field_nibbles\<close> the nibbles of one cycle that stand at the positions of one field
  kind, and \<open>cycle_nibbles\<close> the nibbles of the \<open>r\<close>-th cycle of an input.
\<close>

definition comp_key :: "MessageComponent \<Rightarrow> nat \<times> NibbleTarget" where
  "comp_key c = (message_id c, component_type c)"

definition keys_distinct :: "MessageComponent list \<Rightarrow> bool" where
  "keys_distinct s = distinct (map comp_key s)"

definition lookup_value :: "MessageComponent list \<Rightarrow> nat \<Rightarrow> NibbleTarget \<Rightarrow> int option" where
  "lookup_value s mid t =
     map_option cvalue (find (\<lambda>c. message_id c = mid \<and> component_type c = t) s)"

definition merge_step :: "int option \<Rightarrow> int \<Rightarrow> int option" where
  "merge_step acc n = (case acc of None \<Rightarrow> Some n | Some old \<Rightarrow> Some (push_bit 4 old OR n))"

fun field_nibbles :: "MidiEncoder \<Rightarrow> NibbleTarget \<Rightarrow> nat \<Rightarrow> Int4 list \<Rightarrow> int list" where
  "field_nibbles self t i [] = []"
| "field_nibbles self t i (n # ns) =
     (if NibbleTarget_of (pattern self ! i) = Inr t then [uint n] else [])
       @ field_nibbles self t (i + 1) ns"

definition merge_nibbles :: "int list \<Rightarrow> int option" where
  "merge_nibbles ns = foldl merge_step None ns"

definition valid_pattern :: "string \<Rightarrow> bool" where
  "valid_pattern p = (p \<noteq> [] \<and> list_all (\<lambda>c. c \<in> set ''cnvtl'') p)"

definition pattern_kinds :: "string \<Rightarrow> NibbleTarget set" where
  "pattern_kinds p = {t. \<exists>c \<in> set p. NibbleTarget_of c = Inr t}"

definition cycle_nibbles :: "MidiEncoder \<Rightarrow> Int4 list \<Rightarrow> nat \<Rightarrow> Int4 list" where
  "cycle_nibbles self ns r =
     take (length (pattern self)) (drop (r * length (pattern self)) ns)"

section \<open>Component sets\<close>

lemma eq_iff_key: "MessageComponent_eq d c \<longleftrightarrow> comp_key d = comp_key c"
  by (auto simp: MessageComponent_eq_def comp_key_def)

lemma list_ex_eq_iff: "list_ex (\<lambda>d. MessageComponent_eq d c) s \<longleftrightarrow> comp_key c \<in> comp_key ` set s"
  by (auto simp: list_ex_iff eq_iff_key image_iff) metis

lemma lookup_value_map_of:
  "lookup_value s mid t = map_of (map (\<lambda>c. (comp_key c, cvalue c)) s) (mid, t)"
  by (induction s) (auto simp: lookup_value_def comp_key_def)

lemma lookup_value_None_iff:
  "lookup_value s mid t = None \<longleftrightarrow> (mid, t) \<notin> comp_key ` set s"
  by (simp add: lookup_value_map_of map_of_eq_None_iff image_image)

lemma set_add_new:
  "comp_key c \<notin> comp_key ` set s \<Longrightarrow> set_add s c = s @ [c]"
  by (simp add: set_add_def list_ex_eq_iff)

lemma set_add_old:
  "comp_key c \<in> comp_key ` set s \<Longrightarrow> set_add s c = s"
  by (simp add: set_add_def list_ex_eq_iff)

lemma keys_distinct_set_add: "keys_distinct s \<Longrightarrow> keys_distinct (set_add s c)"
  by (cases "comp_key c \<in> comp_key ` set s") (simp_all add: set_add_new set_add_old keys_distinct_def)

lemma set_remove_present:
  "c \<in> set s \<Longrightarrow> set_remove s c = Inr (filter (\<lambda>d. comp_key d \<noteq> comp_key c) s)"
  by (auto simp: set_remove_def list_ex_iff eq_iff_key)

lemma keys_distinct_filter: "keys_distinct s \<Longrightarrow> keys_distinct (filter P s)"
  by (simp add: keys_distinct_def distinct_map_filter)

lemma lookup_value_filter_key:
  "lookup_value (filter (\<lambda>d. comp_key d \<noteq> k) s) mid t =
     (if (mid, t) = k then None else lookup_value s mid t)"
  by (induction s) (auto simp: lookup_value_def comp_key_def)

lemma lookup_value_append_new:
  "comp_key c \<notin> comp_key ` set s \<Longrightarrow>
   lookup_value (s @ [c]) mid t = (if (mid, t) = comp_key c then Some (cvalue c) else lookup_value s mid t)"
  by (induction s) (auto simp: lookup_value_def comp_key_def)

lemma find_key_Some:
  "find (\<lambda>c. message_id c = mid \<and> component_type c = t) s = Some e \<Longrightarrow>
     e \<in> set s \<and> comp_key e = (mid, t) \<and> lookup_value s mid t = Some (cvalue e)"
  by (auto simp: find_Some_iff lookup_value_def comp_key_def)

lemma find_key_None:
  "find (\<lambda>c. message_id c = mid \<and> component_type c = t) s = None \<Longrightarrow>
     (mid, t) \<notin> comp_key ` set s \<and> lookup_value s mid t = None"
  by (auto simp: find_None_iff lookup_value_def comp_key_def)

lemma NibbleTarget_of_valid:
  "c \<in> set ''cnvtl'' \<Longrightarrow> \<exists>t. NibbleTarget_of c = Inr t"
  by (auto simp: NibbleTarget_of_def)

lemma valid_pattern_nth:
  "valid_pattern p \<Longrightarrow> i < length p \<Longrightarrow> \<exists>t. NibbleTarget_of (p ! i) = Inr t"
  unfolding valid_pattern_def list_all_length
  by (rule NibbleTarget_of_valid) blast

lemma components_loop_step:
  assumes i: "i < length (pattern self)"
    and t: "NibbleTarget_of (pattern self ! i) = Inr t"
    and d: "keys_distinct s"
  shows "\<exists>s'. components_loop self mid i (n # rest) s = components_loop self mid (i + 1) rest s'
           \<and> keys_distinct s'
           \<and> (\<forall>m u. lookup_value s' m u =
                 (if m = mid \<and> u = t then merge_step (lookup_value s mid t) (uint n)
                  else lookup_value s m u))"
proof (cases "find (\<lambda>c. message_id c = mid \<and> component_type c = t) s")
  case None
  let ?c = "\<lparr>message_id = mid, component_type = t, cvalue = uint n\<rparr>"
  from find_key_None [OF None]
  have fresh: "(mid, t) \<notin> comp_key ` set s" and l: "lookup_value s mid t = None"
    by simp_all
  have k: "comp_key ?c = (mid, t)" by (simp add: comp_key_def)
  have add: "set_add s ?c = s @ [?c]"
    by (rule set_add_new) (simp add: k fresh)
  have "components_loop self mid i (n # rest) s = components_loop self mid (i + 1) rest (s @ [?c])"
    using i t None add by simp
  moreover have "keys_distinct (s @ [?c])"
    using d fresh by (simp add: keys_distinct_def k)
  moreover have "lookup_value (s @ [?c]) m u =
      (if m = mid \<and> u = t then merge_step (lookup_value s mid t) (uint n) else lookup_value s m u)"
    for m u
    using lookup_value_append_new [of ?c s m u] fresh
    by (auto simp: k l merge_step_def)
  ultimately show ?thesis by blast
next
  case (Some e)
  let ?v = "push_bit 4 (cvalue e) OR uint n"
  let ?c = "\<lparr>message_id = mid, component_type = t, cvalue = ?v\<rparr>"
  let ?f = "filter (\<lambda>d. comp_key d \<noteq> comp_key e) s"
  from find_key_Some [OF Some]
  have e: "e \<in> set s" and ke: "comp_key e = (mid, t)" and l: "lookup_value s mid t = Some (cvalue e)"
    by simp_all
  have k: "comp_key ?c = (mid, t)" by (simp add: comp_key_def)
  have rem: "set_remove s e = Inr ?f" by (rule set_remove_present [OF e])
  have fresh: "comp_key ?c \<notin> comp_key ` set ?f" by (auto simp: k ke)
  have add: "set_add ?f ?c = ?f @ [?c]" by (rule set_add_new [OF fresh])
  have "components_loop self mid i (n # rest) s = components_loop self mid (i + 1) rest (?f @ [?c])"
    using i t Some rem add by (simp add: Let_def)
  moreover have "keys_distinct (?f @ [?c])"
    using keys_distinct_filter [OF d, of "\<lambda>d. comp_key d \<noteq> comp_key e"] fresh
    by (simp add: keys_distinct_def)
  moreover have "lookup_value (?f @ [?c]) m u =
      (if m = mid \<and> u = t then merge_step (lookup_value s mid t) (uint n) else lookup_value s m u)"
    for m u
    using lookup_value_append_new [OF fresh, of m u]
    by (auto simp: k ke l merge_step_def lookup_value_filter_key)
  ultimately show ?thesis by blast
qed

lemma components_loop_inv:
  assumes v: "valid_pattern (pattern self)"
  shows "i + length ns \<le> length (pattern self) \<Longrightarrow> keys_distinct s \<Longrightarrow>
         \<exists>s'. components_loop self mid i ns s = Inr s' \<and> keys_distinct s'
           \<and> (\<forall>m u. lookup_value s' m u =
                 (if m = mid then foldl merge_step (lookup_value s mid u) (field_nibbles self u i ns)
                  else lookup_value s m u))"
proof (induction ns arbitrary: i s)
  case Nil
  then show ?case by simp
next
  case (Cons n ns)
  from Cons.prems have i: "i < length (pattern self)" by simp
  from valid_pattern_nth [OF v i] obtain t where t: "NibbleTarget_of (pattern self ! i) = Inr t" ..
  from components_loop_step [OF i t Cons.prems(2), of mid n ns]
  obtain s1 where s1: "components_loop self mid i (n # ns) s = components_loop self mid (i + 1) ns s1"
    and d1: "keys_distinct s1"
    and l1: "\<And>m u. lookup_value s1 m u =
                 (if m = mid \<and> u = t then merge_step (lookup_value s mid t) (uint n)
                  else lookup_value s m u)"
    by blast
  from Cons.prems have "(i + 1) + length ns \<le> length (pattern self)" by simp
  from Cons.IH [OF this d1]
  obtain s' where s': "components_loop self mid (i + 1) ns s1 = Inr s'" and d': "keys_distinct s'"
    and l': "\<And>m u. lookup_value s' m u =
                 (if m = mid then foldl merge_step (lookup_value s1 mid u) (field_nibbles self u (i + 1) ns)
                  else lookup_value s1 m u)"
    by blast
  have "lookup_value s' m u =
          (if m = mid then foldl merge_step (lookup_value s mid u) (field_nibbles self u i (n # ns))
           else lookup_value s m u)" for m u
    using t by (auto simp: l' l1)
  with s1 s' d' show ?case by auto
qed

lemma merge_step_foldl_Some: "\<exists>w. foldl merge_step (Some v) xs = Some w"
  by (induction xs arbitrary: v) (simp_all add: merge_step_def)

lemma merge_nibbles_None_iff: "merge_nibbles xs = None \<longleftrightarrow> xs = []"
proof (cases xs)
  case Nil
  then show ?thesis by (simp add: merge_nibbles_def)
next
  case (Cons x ys)
  from merge_step_foldl_Some [of x ys] show ?thesis
    by (auto simp: Cons merge_nibbles_def merge_step_def)
qed

lemma field_nibbles_Nil_iff:
  "field_nibbles self t i ns = [] \<longleftrightarrow>
     (\<forall>j < length ns. NibbleTarget_of (pattern self ! (i + j)) \<noteq> Inr t)"
proof (induction ns arbitrary: i)
  case Nil
  then show ?case by simp
next
  case (Cons n ns)
  show ?case
    by (auto simp: Cons.IH less_Suc_eq_0_disj)
qed

lemma create_message_components_inv:
  assumes v: "valid_pattern (pattern self)" and len: "length ns = length (pattern self)"
  shows "\<exists>new. create_message_components self ns mid = Inr new \<and> keys_distinct new
           \<and> (\<forall>m u. lookup_value new m u =
                 (if m = mid then merge_nibbles (field_nibbles self u 0 ns) else None))"
proof -
  have le: "0 + length ns \<le> length (pattern self)" using len by simp
  have d: "keys_distinct []" by (simp add: keys_distinct_def)
  have e: "lookup_value [] m u = None" for m u by (simp add: lookup_value_def)
  from components_loop_inv [OF v le d, of mid]
  show ?thesis
    unfolding create_message_components_def merge_nibbles_def e by simp
qed

lemma field_nibbles_kinds:
  assumes len: "length ns = length (pattern self)"
  shows "field_nibbles self t 0 ns \<noteq> [] \<longleftrightarrow> t \<in> pattern_kinds (pattern self)"
proof -
  have "(\<exists>j < length (pattern self). NibbleTarget_of (pattern self ! j) = Inr t)
          \<longleftrightarrow> (\<exists>c \<in> set (pattern self). NibbleTarget_of c = Inr t)"
    by (metis in_set_conv_nth)
  then show ?thesis using len by (simp add: field_nibbles_Nil_iff pattern_kinds_def)
qed

lemma lookup_value_append:
  "lookup_value (s @ new) m u =
     (case lookup_value s m u of Some v \<Rightarrow> Some v | None \<Rightarrow> lookup_value new m u)"
  by (induction s) (auto simp: lookup_value_def)

lemma set_update_disjoint:
  "keys_distinct new \<Longrightarrow> comp_key ` set new \<inter> comp_key ` set s = {} \<Longrightarrow>
     set_update s new = s @ new"
proof (induction new arbitrary: s)
  case Nil
  then show ?case by (simp add: set_update_def)
next
  case (Cons c new)
  from Cons.prems have fresh: "comp_key c \<notin> comp_key ` set s" by auto
  from Cons.prems have d: "keys_distinct new" by (simp add: keys_distinct_def)
  from Cons.prems have "comp_key ` set new \<inter> comp_key ` set (s @ [c]) = {}"
    by (auto simp: keys_distinct_def)
  from Cons.IH [OF d this] show ?case
    by (simp add: set_update_def set_add_new [OF fresh])
qed

lemma keys_distinct_length:
  "keys_distinct s \<Longrightarrow> length s = card (comp_key ` set s)"
proof -
  assume "keys_distinct s"
  then have "card (set (map comp_key s)) = length (map comp_key s)"
    unfolding keys_distinct_def by (rule distinct_card)
  then show ?thesis by simp
qed

lemma NibbleTarget_of_inj:
  "NibbleTarget_of c = Inr t \<Longrightarrow> NibbleTarget_of d = Inr t \<Longrightarrow> c = d"
  by (auto simp: NibbleTarget_of_def split: if_splits)

lemma card_pattern_kinds:
  assumes "valid_pattern p"
  shows "card (pattern_kinds p) = card (set p)"
proof -
  let ?f = "\<lambda>c. projr (NibbleTarget_of c)"
  have ex: "\<exists>t. NibbleTarget_of c = Inr t" if "c \<in> set p" for c
    using assms that by (intro NibbleTarget_of_valid) (simp add: valid_pattern_def list_all_iff)
  have "pattern_kinds p = ?f ` set p"
  proof (intro set_eqI iffI)
    fix t assume "t \<in> pattern_kinds p"
    then obtain c where "c \<in> set p" "NibbleTarget_of c = Inr t"
      by (auto simp: pattern_kinds_def)
    then show "t \<in> ?f ` set p" by force
  next
    fix t assume "t \<in> ?f ` set p"
    then obtain c where c: "c \<in> set p" and t: "t = ?f c" by blast
    from ex [OF c] obtain u where "NibbleTarget_of c = Inr u" ..
    with c t show "t \<in> pattern_kinds p" by (auto simp: pattern_kinds_def)
  qed
  moreover have "inj_on ?f (set p)"
  proof (rule inj_onI)
    fix c d assume c: "c \<in> set p" and d: "d \<in> set p" and eq: "?f c = ?f d"
    from ex [OF c] obtain t where t: "NibbleTarget_of c = Inr t" ..
    from ex [OF d] obtain u where u: "NibbleTarget_of d = Inr u" ..
    from eq t u have "t = u" by simp
    with t u show "c = d" by (auto intro: NibbleTarget_of_inj)
  qed
  ultimately show ?thesis by (simp add: card_image)
qed

lemma cycle_components_keys:
  assumes len: "length ns = length (pattern self)"
    and l: "\<And>m u. lookup_value new m u =
                 (if m = mid then merge_nibbles (field_nibbles self u 0 ns) else None)"
  shows "comp_key ` set new = {mid} \<times> pattern_kinds (pattern self)"
proof -
  have "(m, u) \<in> comp_key ` set new \<longleftrightarrow> m = mid \<and> u \<in> pattern_kinds (pattern self)" for m u
    using lookup_value_None_iff [of new m u] field_nibbles_kinds [OF len, of u]
    by (cases "m = mid") (simp_all add: l merge_nibbles_None_iff)
  then show ?thesis by auto
qed

lemma cycle_components_length:
  assumes len: "length ns = length (pattern self)"
    and d: "keys_distinct new"
    and l: "\<And>m u. lookup_value new m u =
                 (if m = mid then merge_nibbles (field_nibbles self u 0 ns) else None)"
  shows "length new = card (pattern_kinds (pattern self))"
  by (simp add: keys_distinct_length [OF d] cycle_components_keys [OF len l] card_cartesian_product)

section \<open>The cycle loop\<close>

lemma valid_pattern_length: "valid_pattern p \<Longrightarrow> 0 < length p"
  by (simp add: valid_pattern_def)

lemma encode_loop_stop:
  "length nibbles < length (pattern self) \<Longrightarrow>
     encode_loop self nibbles components mid = Some (Inr (nibbles, components, mid))"
  by (subst encode_loop.simps) simp

lemma encode_loop_step:
  "length (pattern self) \<le> length nibbles \<Longrightarrow>
   create_message_components self (take (length (pattern self)) nibbles) mid = Inr new \<Longrightarrow>
     encode_loop self nibbles components mid =
       encode_loop self (drop (length (pattern self)) nibbles) (set_update components new) (mid + 1)"
  by (subst encode_loop.simps) simp

lemma encode_loop_inv:
  assumes v: "valid_pattern (pattern self)"
  shows "keys_distinct comps \<Longrightarrow> (\<forall>m u. mid \<le> m \<longrightarrow> lookup_value comps m u = None) \<Longrightarrow>
    \<exists>comps'. encode_loop self ns comps mid =
        Some (Inr (drop (length (pattern self) * (length ns div length (pattern self))) ns,
                   comps', mid + length ns div length (pattern self)))
      \<and> keys_distinct comps'
      \<and> length comps' =
          length comps + (length ns div length (pattern self)) * card (pattern_kinds (pattern self))
      \<and> (\<forall>m u. lookup_value comps' m u =
            (if m < mid then lookup_value comps m u
             else if m < mid + length ns div length (pattern self)
             then merge_nibbles (field_nibbles self u 0 (cycle_nibbles self ns (m - mid)))
             else None))"
proof (induction "length ns" arbitrary: ns comps mid rule: less_induct)
  case less
  let ?L = "length (pattern self)"
  have L: "0 < ?L" by (rule valid_pattern_length [OF v])
  show ?case
  proof (cases "length ns < ?L")
    case True
    then have "length ns div ?L = 0" by simp
    moreover note encode_loop_stop [OF True, of comps mid]
    moreover have "lookup_value comps m u = None" if "\<not> m < mid" for m u
      using less.prems(2) that by simp
    ultimately show ?thesis using less.prems(1) by simp
  next
    case False
    then have ge: "?L \<le> length ns" by simp
    let ?cyc = "take ?L ns" and ?rest = "drop ?L ns"
    have len_cyc: "length ?cyc = ?L" using ge by simp
    from create_message_components_inv [OF v len_cyc, of mid]
    obtain new where new: "create_message_components self ?cyc mid = Inr new"
      and dn: "keys_distinct new"
      and ln: "\<And>m u. lookup_value new m u =
                 (if m = mid then merge_nibbles (field_nibbles self u 0 ?cyc) else None)"
      by blast
    have keys_new: "comp_key ` set new = {mid} \<times> pattern_kinds (pattern self)"
      by (rule cycle_components_keys [OF len_cyc ln])
    have keys_old: "(mid, u) \<notin> comp_key ` set comps" for u
      using less.prems(2) lookup_value_None_iff [of comps mid u] by simp
    have disj: "comp_key ` set new \<inter> comp_key ` set comps = {}"
      using keys_new keys_old by auto
    have upd: "set_update comps new = comps @ new"
      by (rule set_update_disjoint [OF dn disj])
    have d1: "keys_distinct (comps @ new)"
      using less.prems(1) dn disj by (auto simp: keys_distinct_def)
    have l1: "lookup_value (comps @ new) m u =
        (if m < mid then lookup_value comps m u
         else if m = mid then merge_nibbles (field_nibbles self u 0 ?cyc) else None)" for m u
      using less.prems(2) by (auto simp: lookup_value_append ln split: option.splits)
    have none1: "\<forall>m u. mid + 1 \<le> m \<longrightarrow> lookup_value (comps @ new) m u = None"
      by (simp add: l1)
    have lr: "length ?rest = length ns - ?L" by simp
    have shorter: "length ?rest < length ns" using ge L unfolding lr by linarith
    have "length ns div ?L = Suc ((length ns - ?L) div ?L)"
      using ge L by (intro le_div_geq)
    then have k: "length ns div ?L = Suc (length ?rest div ?L)" by simp
    from less.hyps [OF shorter d1 none1]
    obtain comps' where res: "encode_loop self ?rest (comps @ new) (mid + 1) =
        Some (Inr (drop (?L * (length ?rest div ?L)) ?rest, comps', mid + 1 + length ?rest div ?L))"
      and d': "keys_distinct comps'"
      and len': "length comps' =
          length (comps @ new) + (length ?rest div ?L) * card (pattern_kinds (pattern self))"
      and l': "\<And>m u. lookup_value comps' m u =
            (if m < mid + 1 then lookup_value (comps @ new) m u
             else if m < mid + 1 + length ?rest div ?L
             then merge_nibbles (field_nibbles self u 0 (cycle_nibbles self ?rest (m - (mid + 1))))
             else None)"
      by blast
    have run: "encode_loop self ns comps mid =
        Some (Inr (drop (?L * (length ns div ?L)) ns, comps', mid + length ns div ?L))"
      using encode_loop_step [OF ge new, of comps] res
      by (simp add: upd k add.commute)
    have lenf: "length comps' =
        length comps + (length ns div ?L) * card (pattern_kinds (pattern self))"
      using len' cycle_components_length [OF len_cyc dn ln] by (simp add: k)
    have cyc0: "cycle_nibbles self ns 0 = ?cyc" by (simp add: cycle_nibbles_def)
    have cycS: "cycle_nibbles self ?rest j = cycle_nibbles self ns (Suc j)" for j
      by (simp add: cycle_nibbles_def add.commute)
    have lf: "lookup_value comps' m u =
            (if m < mid then lookup_value comps m u
             else if m < mid + length ns div ?L
             then merge_nibbles (field_nibbles self u 0 (cycle_nibbles self ns (m - mid)))
             else None)" for m u
    proof (cases "m \<le> mid")
      case True
      then show ?thesis by (auto simp: l' l1 k cyc0)
    next
      case False
      then have "m - mid = Suc (m - (mid + 1))" by simp
      with False show ?thesis by (simp add: l' k cycS)
    qed
    from run d' lenf lf show ?thesis by blast
  qed
qed

section \<open>One record of the finalizer\<close>

lemma lookup_value_filter_mid:
  "lookup_value (filter (\<lambda>c. message_id c = mid) s) mid t = lookup_value s mid t"
  by (induction s) (auto simp: lookup_value_def)

lemma keys_distinct_Cons:
  "keys_distinct (c # s) \<longleftrightarrow> comp_key c \<notin> comp_key ` set s \<and> keys_distinct s"
  by (simp add: keys_distinct_def)

lemma params_foldl:
  "keys_distinct s \<Longrightarrow> \<forall>c \<in> set s. message_id c = mid \<Longrightarrow>
     foldl (\<lambda>m c. m(component_type c \<mapsto> cvalue c)) m0 s t =
       (case lookup_value s mid t of Some v \<Rightarrow> Some v | None \<Rightarrow> m0 t)"
proof (induction s arbitrary: m0)
  case Nil
  then show ?case by (simp add: lookup_value_def)
next
  case (Cons c s)
  from Cons.prems have d: "keys_distinct s" and fresh: "comp_key c \<notin> comp_key ` set s"
    and mids: "\<forall>c \<in> set s. message_id c = mid" and mc: "message_id c = mid"
    by (simp_all add: keys_distinct_Cons)
  have head: "lookup_value (c # s) mid t =
      (if component_type c = t then Some (cvalue c) else lookup_value s mid t)"
    using mc by (simp add: lookup_value_def)
  have absent: "lookup_value s mid (component_type c) = None"
    using fresh mc by (simp add: lookup_value_None_iff comp_key_def)
  have step: "foldl (\<lambda>m c. m(component_type c \<mapsto> cvalue c)) m0 (c # s) t =
      (case lookup_value s mid t of Some v \<Rightarrow> Some v
       | None \<Rightarrow> (m0(component_type c \<mapsto> cvalue c)) t)"
    unfolding foldl_Cons by (rule Cons.IH [OF d mids])
  show ?case
  proof (cases "component_type c = t")
    case True
    with absent have "lookup_value s mid t = None" by simp
    with True show ?thesis unfolding step head by simp
  next
    case False
    then show ?thesis unfolding step head by (cases "lookup_value s mid t") simp_all
  qed
qed

lemma params_of_lookup:
  assumes "keys_distinct s"
  shows "params_of (filter (\<lambda>c. message_id c = mid) s) t = lookup_value s mid t"
proof -
  let ?f = "filter (\<lambda>c. message_id c = mid) s"
  have d: "keys_distinct ?f"
    by (rule keys_distinct_filter [OF assms])
  have m: "\<forall>c \<in> set ?f. message_id c = mid" by simp
  have "params_of ?f t = (case lookup_value ?f mid t of Some v \<Rightarrow> Some v | None \<Rightarrow> Map.empty t)"
    unfolding params_of_def by (rule params_foldl [OF d m])
  also have "\<dots> = lookup_value s mid t"
    unfolding lookup_value_filter_mid by (cases "lookup_value s mid t") simp_all
  finally show ?thesis .
qed

lemma type_present_iff:
  "t \<in> set (map component_type (filter (\<lambda>c. message_id c = mid) s))
     \<longleftrightarrow> lookup_value s mid t \<noteq> None"
  by (auto simp: lookup_value_None_iff comp_key_def image_iff)

lemma complete_check:
  "list_all (\<lambda>t. t \<in> set (map component_type (filter (\<lambda>c. message_id c = mid) s)))
     [CHANNEL, NOTE, VELOCITY, TIMING, LENGTH_TARGET]
   \<longleftrightarrow> (\<forall>t. lookup_value s mid t \<noteq> None)"
proof -
  have "(\<forall>t. lookup_value s mid t \<noteq> None) \<longleftrightarrow>
          lookup_value s mid CHANNEL \<noteq> None \<and> lookup_value s mid NOTE \<noteq> None
        \<and> lookup_value s mid VELOCITY \<noteq> None \<and> lookup_value s mid TIMING \<noteq> None
        \<and> lookup_value s mid LENGTH_TARGET \<noteq> None"
    (is "?A \<longleftrightarrow> ?B")
  proof
    assume ?A then show ?B by blast
  next
    assume b: ?B
    show ?A
    proof
      fix t show "lookup_value s mid t \<noteq> None" using b by (cases t) simp_all
    qed
  qed
  then show ?thesis
    by (simp only: list.pred_inject type_present_iff simp_thms)
qed

lemma message_pair_incomplete:
  assumes "lookup_value s mid t = None"
  shows "message_pair s mid = Inr None"
proof -
  have "\<not> (\<forall>t. lookup_value s mid t \<noteq> None)" using assms by blast
  then show ?thesis
    unfolding message_pair_def Let_def complete_check by (rule if_not_P)
qed

lemma message_pair_complete:
  assumes d: "keys_distinct s"
    and c: "lookup_value s mid CHANNEL = Some c"
    and n: "lookup_value s mid NOTE = Some n"
    and v: "lookup_value s mid VELOCITY = Some v"
    and t: "lookup_value s mid TIMING = Some t"
    and l: "lookup_value s mid LENGTH_TARGET = Some l"
    and nonneg: "0 \<le> c" "0 \<le> n" "0 \<le> v"
  shows "message_pair s mid =
    Inr (Some (\<lparr>msg_type = note_on, channel = min c 15, note_num = min n 127,
                 velocity = min v 127, time = of_int t\<rparr>,
               \<lparr>msg_type = note_off, channel = min c 15, note_num = min n 127,
                 velocity = 0, time = calculate_note_length l\<rparr>))"
proof -
  have all: "\<forall>t. lookup_value s mid t \<noteq> None"
  proof
    fix u show "lookup_value s mid u \<noteq> None" using c n v t l by (cases u) simp_all
  qed
  have on: "mido_Message note_on (min c 15) (min n 127) (min v 127) (of_int t) =
      Inr \<lparr>msg_type = note_on, channel = min c 15, note_num = min n 127,
                 velocity = min v 127, time = of_int t\<rparr>"
    using nonneg by (simp add: mido_Message_def)
  have off: "mido_Message note_off (min c 15) (min n 127) 0 (calculate_note_length l) =
      Inr \<lparr>msg_type = note_off, channel = min c 15, note_num = min n 127,
                 velocity = 0, time = calculate_note_length l\<rparr>"
    using nonneg by (simp add: mido_Message_def)
  have "message_pair s mid =
      bind_err (dict_get (params_of (filter (\<lambda>c. message_id c = mid) s)) CHANNEL) (\<lambda>c.
         bind_err (dict_get (params_of (filter (\<lambda>c. message_id c = mid) s)) NOTE) (\<lambda>n.
         bind_err (dict_get (params_of (filter (\<lambda>c. message_id c = mid) s)) VELOCITY) (\<lambda>v.
         bind_err (dict_get (params_of (filter (\<lambda>c. message_id c = mid) s)) TIMING) (\<lambda>t.
         bind_err (mido_Message note_on (min c 15) (min n 127) (min v 127) (of_int t)) (\<lambda>on.
         bind_err (dict_get (params_of (filter (\<lambda>c. message_id c = mid) s)) CHANNEL) (\<lambda>c'.
         bind_err (dict_get (params_of (filter (\<lambda>c. message_id c = mid) s)) NOTE) (\<lambda>n'.
         bind_err (dict_get (params_of (filter (\<lambda>c. message_id c = mid) s)) LENGTH_TARGET) (\<lambda>l.
         bind_err (mido_Message note_off (min c' 15) (min n' 127) 0 (calculate_note_length l))
           (\<lambda>off. Inr (Some (on, off)))))))))))"
    unfolding message_pair_def Let_def complete_check using all by (rule if_P)
  also have "\<dots> = Inr (Some (\<lparr>msg_type = note_on, channel = min c 15, note_num = min n 127,
                 velocity = min v 127, time = of_int t\<rparr>,
               \<lparr>msg_type = note_off, channel = min c 15, note_num = min n 127,
                 velocity = 0, time = calculate_note_length l\<rparr>))"
    by (simp only: dict_get_def params_of_lookup [OF d] c n v t l on off bind_err_def
        option.case sum.case)
  finally show ?thesis .
qed

section \<open>Bounds of merged values\<close>

lemma init_valid:
  "MidiEncoder_init p = Inr self \<Longrightarrow> pattern self = p \<and> valid_pattern p"
  by (auto simp: MidiEncoder_init_def valid_pattern_def split: if_splits)

lemma merge_step_bounds:
  fixes a x :: int
  assumes a: "0 \<le> a" "a < 2 ^ (4 * k)" and x: "0 \<le> x" "x < 16"
  shows "0 \<le> push_bit 4 a OR x \<and> push_bit 4 a OR x < 2 ^ (4 * Suc k)"
proof -
  have p: "push_bit 4 a = a * 16" by (simp add: push_bit_eq_mult)
  have "a * 16 < 2 ^ (4 * k) * 16" using a by simp
  also have "\<dots> = (2::int) ^ (4 * Suc k)" by (simp add: power_add)
  finally have u: "push_bit 4 a < 2 ^ (4 * Suc k)" by (simp add: p)
  have "(16::int) \<le> 2 ^ (4 * Suc k)"
    using power_increasing [of 4 "4 * Suc k" "2::int"] by simp
  with x have xu: "x < 2 ^ (4 * Suc k)" by linarith
  have n: "0 \<le> push_bit 4 a" using a by simp
  from OR_upper [OF n u xu] a x show ?thesis by simp
qed

lemma merge_foldl_bounds:
  fixes a :: int
  shows "0 \<le> a \<Longrightarrow> a < 2 ^ (4 * k) \<Longrightarrow> \<forall>x \<in> set xs. 0 \<le> x \<and> x < 16 \<Longrightarrow>
     \<exists>v. foldl merge_step (Some a) xs = Some v \<and> 0 \<le> v \<and> v < 2 ^ (4 * (k + length xs))"
proof (induction xs arbitrary: a k)
  case Nil
  then show ?case by simp
next
  case (Cons x xs)
  from Cons.prems have x: "0 \<le> x" "x < 16" by simp_all
  from merge_step_bounds [OF Cons.prems(1,2) x]
  have b: "0 \<le> push_bit 4 a OR x" "push_bit 4 a OR x < 2 ^ (4 * Suc k)" by simp_all
  from Cons.prems have rest: "\<forall>x \<in> set xs. 0 \<le> x \<and> x < 16" by simp
  from Cons.IH [OF b rest] show ?case by (simp add: merge_step_def)
qed

lemma merge_nibbles_bounds:
  assumes "\<forall>x \<in> set xs. 0 \<le> x \<and> x < 16" and "merge_nibbles xs = Some v"
  shows "0 \<le> v \<and> v < 2 ^ (4 * length xs)"
proof (cases xs)
  case Nil
  with assms show ?thesis by (simp add: merge_nibbles_def)
next
  case (Cons x ys)
  from assms Cons have x: "0 \<le> x" "x < 2 ^ (4 * 1)" and r: "\<forall>x \<in> set ys. 0 \<le> x \<and> x < 16"
    by simp_all
  from merge_foldl_bounds [OF x r] assms(2) Cons show ?thesis
    by (simp add: merge_nibbles_def merge_step_def)
qed

lemma field_nibbles_range: "\<forall>x \<in> set (field_nibbles self t i ns). 0 \<le> x \<and> x < 16"
proof (induction ns arbitrary: i)
  case Nil
  then show ?case by simp
next
  case (Cons n ns)
  have "uint n < 16" using uint_lt2p [of n] by simp
  with Cons [of "Suc i"] show ?case by auto
qed

lemma merge_field_nonneg:
  "merge_nibbles (field_nibbles self t i ns) = Some v \<Longrightarrow> 0 \<le> v"
  using merge_nibbles_bounds [OF field_nibbles_range] by blast

section \<open>The loop of the finalizer\<close>

lemma message_pair_total:
  assumes d: "keys_distinct s"
    and nonneg: "\<And>t v. lookup_value s mid t = Some v \<Longrightarrow> 0 \<le> v"
  shows "\<exists>r. message_pair s mid = Inr r"
proof (cases "\<exists>t. lookup_value s mid t = None")
  case True
  then obtain t where "lookup_value s mid t = None" ..
  from message_pair_incomplete [OF this] show ?thesis by blast
next
  case False
  then have all: "\<And>t. \<exists>v. lookup_value s mid t = Some v" by auto
  from all obtain c where c: "lookup_value s mid CHANNEL = Some c" by blast
  from all obtain n where n: "lookup_value s mid NOTE = Some n" by blast
  from all obtain v where v: "lookup_value s mid VELOCITY = Some v" by blast
  from all obtain t where t: "lookup_value s mid TIMING = Some t" by blast
  from all obtain l where l: "lookup_value s mid LENGTH_TARGET = Some l" by blast
  from message_pair_complete [OF d c n v t l nonneg [OF c] nonneg [OF n] nonneg [OF v]]
  show ?thesis by blast
qed

lemma pairs_loop_Inr:
  "pairs_loop comps ids acc = Inr msgs \<Longrightarrow>
     \<exists>new. msgs = acc @ new \<and>
       map (message_pair comps) (filter (\<lambda>mid. message_pair comps mid \<noteq> Inr None) ids) =
         map (\<lambda>p. Inr (Some p)) new"
proof (induction ids arbitrary: acc)
  case Nil
  then show ?case by simp
next
  case (Cons mid ids)
  show ?case
  proof (cases "message_pair comps mid")
    case (Inl e)
    with Cons.prems show ?thesis by simp
  next
    case (Inr r)
    show ?thesis
    proof (cases r)
      case None
      with Inr Cons.prems have "pairs_loop comps ids acc = Inr msgs" by simp
      from Cons.IH [OF this] Inr None show ?thesis by simp
    next
      case (Some p)
      with Inr Cons.prems have "pairs_loop comps ids (acc @ [p]) = Inr msgs" by simp
      from Cons.IH [OF this] obtain new where "msgs = (acc @ [p]) @ new"
        and "map (message_pair comps) (filter (\<lambda>mid. message_pair comps mid \<noteq> Inr None) ids) =
         map (\<lambda>p. Inr (Some p)) new"
        by blast
      with Inr Some show ?thesis by simp
    qed
  qed
qed

lemma pairs_loop_total:
  "\<forall>mid \<in> set ids. \<exists>r. message_pair comps mid = Inr r \<Longrightarrow>
     \<exists>msgs. pairs_loop comps ids acc = Inr msgs"
proof (induction ids arbitrary: acc)
  case Nil
  then show ?case by simp
next
  case (Cons mid ids)
  from Cons.prems obtain r where r: "message_pair comps mid = Inr r" by auto
  from Cons.prems have rest: "\<forall>mid \<in> set ids. \<exists>r. message_pair comps mid = Inr r" by simp
  show ?case
  proof (cases r)
    case None
    with r Cons.IH [OF rest, of acc] show ?thesis by simp
  next
    case (Some p)
    with r Cons.IH [OF rest, of "acc @ [p]"] show ?thesis by simp
  qed
qed



lemma sorted_ids: "sorted_wrt (<) (sort (remdups (map message_id comps)))"
  by (simp add: strict_sorted_iff)

section \<open>The whole call on a constructed encoder\<close>

lemma encode_loop_start:
  assumes v: "valid_pattern (pattern self)"
  shows "\<exists>comps. encode_loop self ns [] 0 =
        Some (Inr (drop (length (pattern self) * (length ns div length (pattern self))) ns,
                   comps, length ns div length (pattern self)))
      \<and> keys_distinct comps
      \<and> length comps = (length ns div length (pattern self)) * card (pattern_kinds (pattern self))
      \<and> (\<forall>m u. lookup_value comps m u =
            (if m < length ns div length (pattern self)
             then merge_nibbles (field_nibbles self u 0 (cycle_nibbles self ns m))
             else None))"
proof -
  have d: "keys_distinct []" by (simp add: keys_distinct_def)
  have e: "\<forall>m u. 0 \<le> m \<longrightarrow> lookup_value [] m u = None" by (simp add: lookup_value_def)
  from encode_loop_inv [OF v d e, of ns] show ?thesis by (simp cong: if_cong)
qed

lemma finalizer_total:
  assumes d: "keys_distinct comps"
    and l: "\<And>m u. lookup_value comps m u =
            (if m < k then merge_nibbles (field_nibbles self u 0 (cyc m)) else None)"
  shows "\<exists>msgs. create_message_pairs_from_components comps = Inr msgs"
proof -
  have "\<exists>r. message_pair comps mid = Inr r" for mid
  proof (rule message_pair_total [OF d])
    fix t v assume "lookup_value comps mid t = Some v"
    then have "merge_nibbles (field_nibbles self t 0 (cyc mid)) = Some v"
      by (simp add: l split: if_splits)
    then show "0 \<le> v" by (rule merge_field_nonneg)
  qed
  then show ?thesis
    unfolding create_message_pairs_from_components_def
    by (intro pairs_loop_total) blast
qed

lemma encode_chunk_valid:
  assumes v: "valid_pattern (pattern self)" and ne: "ns \<noteq> []"
  obtains comps msgs where
      "encode_loop self ns [] 0 =
        Some (Inr (drop (length (pattern self) * (length ns div length (pattern self))) ns,
                   comps, length ns div length (pattern self)))"
    and "keys_distinct comps"
    and "length comps =
          (length ns div length (pattern self)) * card (pattern_kinds (pattern self))"
    and "\<And>m u. lookup_value comps m u =
            (if m < length ns div length (pattern self)
             then merge_nibbles (field_nibbles self u 0 (cycle_nibbles self ns m))
             else None)"
    and "create_message_pairs_from_components comps = Inr msgs"
    and "encode_chunk self ns =
          Some (Inr (msgs,
            (if drop (length (pattern self) * (length ns div length (pattern self))) ns \<noteq> []
             then Some \<lparr>bits = concat (map (\<lambda>n. format_04b (uint n))
                            (drop (length (pattern self) * (length ns div length (pattern self))) ns)),
                        pattern_position = length comps mod length (pattern self)\<rparr>
             else None),
            drop (length (pattern self) * (length ns div length (pattern self))) ns))"
proof -
  from encode_loop_start [OF v, of ns]
  obtain comps where run: "encode_loop self ns [] 0 =
        Some (Inr (drop (length (pattern self) * (length ns div length (pattern self))) ns,
                   comps, length ns div length (pattern self)))"
    and d: "keys_distinct comps"
    and len: "length comps =
        (length ns div length (pattern self)) * card (pattern_kinds (pattern self))"
    and l: "\<And>m u. lookup_value comps m u =
            (if m < length ns div length (pattern self)
             then merge_nibbles (field_nibbles self u 0 (cycle_nibbles self ns m))
             else None)"
    by blast
  from finalizer_total [OF d l]
  obtain msgs where fin: "create_message_pairs_from_components comps = Inr msgs" by blast
  have chunk: "encode_chunk self ns =
          Some (Inr (msgs,
            (if drop (length (pattern self) * (length ns div length (pattern self))) ns \<noteq> []
             then Some \<lparr>bits = concat (map (\<lambda>n. format_04b (uint n))
                            (drop (length (pattern self) * (length ns div length (pattern self))) ns)),
                        pattern_position = length comps mod length (pattern self)\<rparr>
             else None),
            drop (length (pattern self) * (length ns div length (pattern self))) ns))"
    using ne by (simp add: encode_chunk_def run fin)
  show ?thesis by (rule that [OF run d len l fin chunk])
qed

section \<open>What the finalizer emits\<close>

lemma finalizer_order:
  assumes "create_message_pairs_from_components comps = Inr msgs"
  shows "map (message_pair comps)
           (filter (\<lambda>mid. message_pair comps mid \<noteq> Inr None)
              (sort (remdups (map message_id comps)))) = map (\<lambda>p. Inr (Some p)) msgs"
  using pairs_loop_Inr [OF assms [unfolded create_message_pairs_from_components_def]]
  by simp

lemma finalizer_emits:
  assumes fin: "create_message_pairs_from_components comps = Inr msgs"
    and mid: "mid \<in> message_id ` set comps"
    and pr: "message_pair comps mid = Inr (Some pr)"
  shows "pr \<in> set msgs"
proof -
  let ?ids = "filter (\<lambda>mid. message_pair comps mid \<noteq> Inr None)
              (sort (remdups (map message_id comps)))"
  have "mid \<in> set ?ids" using mid pr by simp
  then have "message_pair comps mid \<in> set (map (message_pair comps) ?ids)"
    unfolding set_map by (rule imageI)
  then have "Inr (Some pr) \<in> set (map (\<lambda>p. Inr (Some p) :: error + (Message \<times> Message) option) msgs)"
    unfolding finalizer_order [OF fin] pr .
  then show ?thesis by auto
qed

lemma lookup_value_mid:
  "lookup_value comps mid t = Some v \<Longrightarrow> mid \<in> message_id ` set comps"
proof -
  assume "lookup_value comps mid t = Some v"
  then have "(mid, t) \<in> comp_key ` set comps"
    using lookup_value_None_iff [of comps mid t] by auto
  then show ?thesis by (auto simp: comp_key_def)
qed

section \<open>Dropping an incomplete record\<close>





section \<open>Counting the occurrences of a symbol\<close>

lemma NibbleTarget_of_symbol:
  "c \<in> set ''cnvtl'' \<Longrightarrow> NibbleTarget_of c = Inr t \<longleftrightarrow> c = symbol_of t"
  by (cases t) (auto simp: NibbleTarget_of_def symbol_of_def)

lemma field_nibbles_length:
  assumes v: "valid_pattern (pattern self)"
  shows "i + length ns \<le> length (pattern self) \<Longrightarrow>
     length (field_nibbles self t i ns) =
       count_list (take (length ns) (drop i (pattern self))) (symbol_of t)"
proof (induction ns arbitrary: i)
  case Nil
  then show ?case by simp
next
  case (Cons n ns)
  from Cons.prems have i: "i < length (pattern self)" by simp
  from v i have "pattern self ! i \<in> set ''cnvtl''"
    unfolding valid_pattern_def list_all_length by blast
  then have k: "NibbleTarget_of (pattern self ! i) = Inr t \<longleftrightarrow> pattern self ! i = symbol_of t"
    by (rule NibbleTarget_of_symbol)
  have d: "drop i (pattern self) = pattern self ! i # drop (Suc i) (pattern self)"
    by (rule Cons_nth_drop_Suc [OF i, symmetric])
  from Cons.prems have "Suc i + length ns \<le> length (pattern self)" by simp
  from Cons.IH [OF this] show ?case
    by (simp add: d k)
qed

lemma field_nibbles_count:
  assumes v: "valid_pattern (pattern self)" and len: "length ns = length (pattern self)"
  shows "length (field_nibbles self t 0 ns) = count_list (pattern self) (symbol_of t)"
  using field_nibbles_length [OF v, of 0 ns t] len by simp

lemma distinct_count_le1: "distinct xs \<Longrightarrow> count_list xs x \<le> 1"
  by (induction xs) auto

lemma lookup_value_member:
  "keys_distinct s \<Longrightarrow> c \<in> set s \<Longrightarrow>
     lookup_value s (message_id c) (component_type c) = Some (cvalue c)"
proof (induction s)
  case Nil
  then show ?case by simp
next
  case (Cons a s)
  show ?case
  proof (cases "c = a")
    case True
    then show ?thesis by (simp add: lookup_value_def)
  next
    case False
    with Cons.prems have cs: "c \<in> set s" and d: "keys_distinct s"
      and fresh: "comp_key a \<notin> comp_key ` set s"
      by (simp_all add: keys_distinct_Cons)
    from cs fresh have "comp_key a \<noteq> comp_key c" by auto
    then have "\<not> (message_id a = message_id c \<and> component_type a = component_type c)"
      by (simp add: comp_key_def)
    with Cons.IH [OF d cs] show ?thesis by (auto simp: lookup_value_def)
  qed
qed

lemma components_loop_append:
  "components_loop self mid i (xs @ ys) s =
     (case components_loop self mid i xs s of
        Inl e \<Rightarrow> Inl e
      | Inr s' \<Rightarrow> components_loop self mid (i + length xs) ys s')"
proof (induction xs arbitrary: i s)
  case Nil
  then show ?case by simp
next
  case (Cons n xs)
  show ?case
    by (simp add: Cons.IH Let_def split: sum.splits option.splits)
qed

section \<open>The claims\<close>

text \<open>
  C1. For the encoder constructed with the pattern \<open>cnvtl\<close>, the nibbles
  \<open>[0, 3, 12, 4, 0, 1]\<close> give exactly one event pair, the start event with channel 0,
  note 3, velocity 12 and time 4 and the end event with channel 0, note 3, velocity 0
  and time 1.0, together with a remainder whose bits are \<open>0001\<close> and whose pattern
  position is 0. The last component of the result is the deque as the call leaves it.
\<close>

theorem C1_cnvtl_six_nibbles:
  "MidiEncoder_init ''cnvtl'' = Inr \<lparr>pattern = ''cnvtl''\<rparr> \<and>
   encode_chunk \<lparr>pattern = ''cnvtl''\<rparr> [0, 3, 12, 4, 0, 1] =
     Some (Inr ([(\<lparr>msg_type = note_on, channel = 0, note_num = 3, velocity = 12, time = 4\<rparr>,
                  \<lparr>msg_type = note_off, channel = 0, note_num = 3, velocity = 0, time = 1.0\<rparr>)],
                Some \<lparr>bits = ''0001'', pattern_position = 0\<rparr>,
                [1]))"
  by code_simp

text \<open>
  C6. Construction raises \<open>PatternError\<close> if and only if the pattern is empty or holds
  a symbol outside c, n, v, t, l; it raises nothing else; and for every non-empty
  pattern over these five symbols it succeeds with an encoder whose pattern is the input.
\<close>

theorem C6_construction:
  "(MidiEncoder_init p = Inl PatternError \<longleftrightarrow>
      p = [] \<or> (\<exists>c \<in> set p. c \<notin> {CHR ''c'', CHR ''n'', CHR ''v'', CHR ''t'', CHR ''l''}))
   \<and> (\<forall>e. MidiEncoder_init p = Inl e \<longrightarrow> e = PatternError)
   \<and> (p \<noteq> [] \<and> set p \<subseteq> {CHR ''c'', CHR ''n'', CHR ''v'', CHR ''t'', CHR ''l''}
        \<longrightarrow> (\<exists>enc. MidiEncoder_init p = Inr enc \<and> pattern enc = p))"
  by (auto simp: MidiEncoder_init_def list_all_iff)

theorem C6_construction_witness:
  "(\<exists>enc. MidiEncoder_init ''cnvcnvtltl'' = Inr enc \<and> pattern enc = ''cnvcnvtltl'')
   \<and> MidiEncoder_init ''cnvtlx'' = Inl PatternError
   \<and> MidiEncoder_init [] = Inl PatternError"
  using C6_construction [of "''cnvcnvtltl''"] C6_construction [of "''cnvtlx''"]
    C6_construction [of "[]"]
  by simp

text \<open>
  C7. The duration lookup maps the length codes 0 to 15 to 1, 0.75, 0.5, 0.375, 0.25,
  0.1875, 0.125, 0.09375, 0.0625, 0.046875, 0.03125, 0.0234375, 0.015625, 0.01171875,
  0.0078125 and 0.005859375, a strictly decreasing sequence, and every code outside
  0..15 to the duration 1 of code 0.
\<close>

theorem C7_duration_table:
  "map calculate_note_length [0, 1, 2, 3, 4, 5, 6, 7, 8, 9, 10, 11, 12, 13, 14, 15] =
     [1, 0.75, 0.5, 0.375, 0.25, 0.1875, 0.125, 0.09375, 0.0625, 0.046875, 0.03125,
      0.0234375, 0.015625, 0.01171875, 0.0078125, 0.005859375]
   \<and> sorted_wrt (\<lambda>a b. b < a)
        (map calculate_note_length [0, 1, 2, 3, 4, 5, 6, 7, 8, 9, 10, 11, 12, 13, 14, 15])
   \<and> (v < 0 \<or> 15 < v \<longrightarrow> calculate_note_length v = calculate_note_length 0
        \<and> calculate_note_length v = 1)"
  by (simp add: calculate_note_length_def note_durations_def)

theorem C7_duration_table_witness:
  "calculate_note_length 16 = 1 \<and> calculate_note_length (- 1) = 1
   \<and> calculate_note_length 60 = calculate_note_length 0"
  using C7_duration_table [of 16] C7_duration_table [of "- 1"] C7_duration_table [of 60]
  by simp

text \<open>
  C5. The call raises \<open>NibbleProcessingError\<close> if and only if the nibble sequence is
  empty on entry. The check comes first: an empty sequence gives the error for every
  encoder value, whatever its pattern. On a constructed encoder every non-empty input,
  also one shorter than the pattern, returns normally with an event list and an optional
  remainder.
\<close>

theorem C5_empty_input:
  "encode_chunk self [] = Some (Inl NibbleProcessingError)
   \<and> (MidiEncoder_init p = Inr enc \<longrightarrow>
        (encode_chunk enc ns = Some (Inl NibbleProcessingError) \<longleftrightarrow> ns = [])
        \<and> (ns \<noteq> [] \<longrightarrow> (\<exists>msgs rem ns'. encode_chunk enc ns = Some (Inr (msgs, rem, ns')))))"
proof (intro conjI impI)
  show e: "encode_chunk self [] = Some (Inl NibbleProcessingError)" for self
    by (simp add: encode_chunk_def)
  assume init: "MidiEncoder_init p = Inr enc"
  then have v: "valid_pattern (pattern enc)" using init_valid by blast
  show ok: "\<exists>msgs rem ns'. encode_chunk enc ns = Some (Inr (msgs, rem, ns'))" if "ns \<noteq> []"
    by (rule encode_chunk_valid [OF v that]) blast
  show "encode_chunk enc ns = Some (Inl NibbleProcessingError) \<longleftrightarrow> ns = []"
  proof
    assume "encode_chunk enc ns = Some (Inl NibbleProcessingError)"
    with ok show "ns = []" by (cases "ns = []") auto
  next
    assume "ns = []"
    with e show "encode_chunk enc ns = Some (Inl NibbleProcessingError)" by simp
  qed
qed

theorem C5_empty_input_witness:
  "MidiEncoder_init ''cnvtl'' = Inr \<lparr>pattern = ''cnvtl''\<rparr>
   \<and> encode_chunk \<lparr>pattern = ''x''\<rparr> [] = Some (Inl NibbleProcessingError)
   \<and> encode_chunk \<lparr>pattern = ''cnvtl''\<rparr> [0, 3] \<noteq> Some (Inl NibbleProcessingError)
   \<and> (\<exists>msgs rem ns'. encode_chunk \<lparr>pattern = ''cnvtl''\<rparr> [0, 3] = Some (Inr (msgs, rem, ns')))"
proof -
  have h: "MidiEncoder_init ''cnvtl'' = Inr \<lparr>pattern = ''cnvtl''\<rparr>" by code_simp
  show ?thesis
    using h C5_empty_input [of "\<lparr>pattern = ''x''\<rparr>" "''cnvtl''" "\<lparr>pattern = ''cnvtl''\<rparr>" "[0, 3]"]
    by simp
qed

text \<open>
  C9, as stated, fails: the call removes from the caller's sequence only the full
  cycles. With the pattern \<open>cnvtl\<close> and seven nibbles the two unconsumed nibbles are
  still in the sequence after the call.
\<close>

theorem C9_leftover_not_drained:
  "encode_chunk \<lparr>pattern = ''cnvtl''\<rparr> [1, 2, 3, 4, 5, 6, 7] =
     Some (Inr ([(\<lparr>msg_type = note_on, channel = 1, note_num = 2, velocity = 3, time = 4\<rparr>,
                  \<lparr>msg_type = note_off, channel = 1, note_num = 2, velocity = 0, time = 0.1875\<rparr>)],
                Some \<lparr>bits = ''01100111'', pattern_position = 0\<rparr>,
                [6, 7]))
   \<and> [6, 7] \<noteq> ([] :: Int4 list)"
  by code_simp

text \<open>
  C9, amended. After a normal return the caller's sequence holds exactly the unconsumed
  nibbles: the last \<open>length ns mod length p\<close> nibbles of the input, fewer than one
  pattern length. They are the nibbles that the bits of the returned remainder encode,
  and the sequence is empty exactly when no remainder is returned. The encoder holds
  nothing but its pattern, so no component, record id or nibble passes from one call to
  the next through it.
\<close>

theorem C9_leftover_stays:
  assumes init: "MidiEncoder_init p = Inr enc" and ne: "ns \<noteq> []"
  shows "\<exists>msgs rem ns'. encode_chunk enc ns = Some (Inr (msgs, rem, ns'))
           \<and> ns' = drop (length ns - length ns mod length p) ns
           \<and> length ns' = length ns mod length p
           \<and> length ns' < length p
           \<and> (rem = None \<longleftrightarrow> ns' = [])
           \<and> (\<forall>r. rem = Some r \<longrightarrow> bits r = concat (map (\<lambda>n. format_04b (uint n)) ns'))
           \<and> pattern enc = p"
proof -
  from init_valid [OF init] have p: "pattern enc = p" and v: "valid_pattern (pattern enc)"
    by simp_all
  have L: "0 < length p" using valid_pattern_length [OF v] p by simp
  have k: "length p * (length ns div length p) = length ns - length ns mod length p"
    by (simp add: minus_mod_eq_mult_div [symmetric])
  have len: "length (drop (length ns - length ns mod length p) ns) = length ns mod length p"
    by simp
  have lt: "length ns mod length p < length p" using L by simp
  show ?thesis
  proof (rule encode_chunk_valid [OF v ne])
    fix comps msgs
    assume "encode_chunk enc ns =
          Some (Inr (msgs,
            (if drop (length (pattern enc) * (length ns div length (pattern enc))) ns \<noteq> []
             then Some \<lparr>bits = concat (map (\<lambda>n. format_04b (uint n))
                            (drop (length (pattern enc) * (length ns div length (pattern enc))) ns)),
                        pattern_position = length comps mod length (pattern enc)\<rparr>
             else None),
            drop (length (pattern enc) * (length ns div length (pattern enc))) ns))"
    then have res: "encode_chunk enc ns =
          Some (Inr (msgs,
            (if drop (length ns - length ns mod length p) ns \<noteq> []
             then Some \<lparr>bits = concat (map (\<lambda>n. format_04b (uint n))
                            (drop (length ns - length ns mod length p) ns)),
                        pattern_position = length comps mod length p\<rparr>
             else None),
            drop (length ns - length ns mod length p) ns))"
      unfolding p k .
    show ?thesis
      by (intro exI conjI, rule res) (simp_all only: len lt p, simp_all)
  qed
qed

theorem C9_leftover_stays_witness:
  "MidiEncoder_init ''cnvtl'' = Inr \<lparr>pattern = ''cnvtl''\<rparr>
   \<and> [0, 3, 12, 4, 0, 1] \<noteq> ([] :: Int4 list)
   \<and> (\<exists>msgs rem. encode_chunk \<lparr>pattern = ''cnvtl''\<rparr> [0, 3, 12, 4, 0, 1] =
          Some (Inr (msgs, rem, [1])) \<and> rem \<noteq> None)"
proof -
  have h: "MidiEncoder_init ''cnvtl'' = Inr \<lparr>pattern = ''cnvtl''\<rparr>" by code_simp
  have ne: "[0, 3, 12, 4, 0, 1] \<noteq> ([] :: Int4 list)" by simp
  show ?thesis
    using h C9_leftover_stays [OF h ne] by auto
qed

text \<open>
  C10. Whenever the call returns a remainder, its pattern position is the number of
  distinct (message id, component type) keys of the components created during the call,
  modulo the pattern length. That number is the number of consumed cycles times the
  number of distinct symbols of the pattern, so for a pattern of pairwise distinct
  symbols every remainder has pattern position 0.
\<close>

theorem C10_pattern_position:
  assumes init: "MidiEncoder_init p = Inr enc"
    and res: "encode_chunk enc ns = Some (Inr (msgs, Some r, ns'))"
  shows "\<exists>comps mid. encode_loop enc ns [] 0 = Some (Inr (ns', comps, mid))
           \<and> pattern_position r = card (comp_key ` set comps) mod length p
           \<and> card (comp_key ` set comps) = (length ns div length p) * card (set p)
           \<and> (distinct p \<longrightarrow> pattern_position r = 0)"
proof -
  from init_valid [OF init] have p: "pattern enc = p" and v: "valid_pattern (pattern enc)"
    by simp_all
  have ne: "ns \<noteq> []"
    using res by (auto simp: encode_chunk_def)
  show ?thesis
  proof (rule encode_chunk_valid [OF v ne])
    fix comps msgs'
    assume run: "encode_loop enc ns [] 0 =
        Some (Inr (drop (length (pattern enc) * (length ns div length (pattern enc))) ns,
                   comps, length ns div length (pattern enc)))"
      and d: "keys_distinct comps"
      and len: "length comps =
          (length ns div length (pattern enc)) * card (pattern_kinds (pattern enc))"
      and chunk: "encode_chunk enc ns =
          Some (Inr (msgs',
            (if drop (length (pattern enc) * (length ns div length (pattern enc))) ns \<noteq> []
             then Some \<lparr>bits = concat (map (\<lambda>n. format_04b (uint n))
                            (drop (length (pattern enc) * (length ns div length (pattern enc))) ns)),
                        pattern_position = length comps mod length (pattern enc)\<rparr>
             else None),
            drop (length (pattern enc) * (length ns div length (pattern enc))) ns))"
    from res chunk have ns': "ns' = drop (length (pattern enc) * (length ns div length (pattern enc))) ns"
      and pos: "pattern_position r = length comps mod length (pattern enc)"
      by (auto split: if_splits)
    have c: "card (comp_key ` set comps) = length comps"
      by (rule keys_distinct_length [OF d, symmetric])
    have n: "length comps = (length ns div length p) * card (set p)"
      using len card_pattern_kinds [OF v] by (simp add: p)
    have z: "pattern_position r = 0" if "distinct p"
      using that pos n by (simp add: p distinct_card)
    from run ns' pos c n z show ?thesis by (simp add: p)
  qed
qed

theorem C10_pattern_position_witness:
  "MidiEncoder_init ''nn'' = Inr \<lparr>pattern = ''nn''\<rparr>
   \<and> encode_chunk \<lparr>pattern = ''nn''\<rparr> [3, 12, 5] =
       Some (Inr ([], Some \<lparr>bits = ''0101'', pattern_position = 1\<rparr>, [5]))
   \<and> (\<exists>comps mid. encode_loop \<lparr>pattern = ''nn''\<rparr> [3, 12, 5] [] 0 = Some (Inr ([5], comps, mid))
         \<and> 1 = card (comp_key ` set comps) mod 2)"
proof -
  have h: "MidiEncoder_init ''nn'' = Inr \<lparr>pattern = ''nn''\<rparr>" by code_simp
  have r: "encode_chunk \<lparr>pattern = ''nn''\<rparr> [3, 12, 5] =
       Some (Inr ([], Some \<lparr>bits = ''0101'', pattern_position = 1\<rparr>, [5]))" by code_simp
  from C10_pattern_position [OF h r] obtain comps mid
    where a: "encode_loop \<lparr>pattern = ''nn''\<rparr> [3, 12, 5] [] 0 = Some (Inr ([5], comps, mid))"
      and b: "pattern_position \<lparr>bits = ''0101'', pattern_position = 1\<rparr> =
                card (comp_key ` set comps) mod length ''nn''"
    by blast
  from b have "1 = card (comp_key ` set comps) mod 2" by (simp add: numeral_2_eq_2)
  with h r a show ?thesis by blast
qed

text \<open>
  C4. For every complete record of a call, the start event has the channel
  \<open>min c 15\<close>, the note \<open>min n 127\<close>, the velocity \<open>min v 127\<close> and as time the
  TIMING value as it is; the end event has the same channel and note, velocity 0 and as
  time the duration of the LENGTH value as it is. The constructor of the message accepts
  these values, so the pair is built without error, and it is in the list the call returns.
\<close>

theorem C4_clamping:
  assumes init: "MidiEncoder_init p = Inr enc"
    and run: "encode_loop enc ns [] 0 = Some (Inr (ns', comps, k))"
    and c: "lookup_value comps mid CHANNEL = Some c"
    and n: "lookup_value comps mid NOTE = Some n"
    and v: "lookup_value comps mid VELOCITY = Some v"
    and t: "lookup_value comps mid TIMING = Some t"
    and l: "lookup_value comps mid LENGTH_TARGET = Some l"
  shows "message_pair comps mid =
      Inr (Some (\<lparr>msg_type = note_on, channel = min c 15, note_num = min n 127,
                   velocity = min v 127, time = of_int t\<rparr>,
                 \<lparr>msg_type = note_off, channel = min c 15, note_num = min n 127,
                   velocity = 0, time = calculate_note_length l\<rparr>))
    \<and> (\<exists>msgs rem. encode_chunk enc ns = Some (Inr (msgs, rem, ns'))
          \<and> (\<lparr>msg_type = note_on, channel = min c 15, note_num = min n 127,
                   velocity = min v 127, time = of_int t\<rparr>,
               \<lparr>msg_type = note_off, channel = min c 15, note_num = min n 127,
                   velocity = 0, time = calculate_note_length l\<rparr>) \<in> set msgs)"
proof -
  from init_valid [OF init] have vp: "valid_pattern (pattern enc)" by simp
  have ne: "ns \<noteq> []"
  proof
    assume "ns = []"
    with run valid_pattern_length [OF vp] have "comps = []"
      by (simp add: encode_loop_stop)
    with c show False by (simp add: lookup_value_def)
  qed
  show ?thesis
  proof (rule encode_chunk_valid [OF vp ne])
    fix comps' msgs
    assume run': "encode_loop enc ns [] 0 =
        Some (Inr (drop (length (pattern enc) * (length ns div length (pattern enc))) ns,
                   comps', length ns div length (pattern enc)))"
      and d: "keys_distinct comps'"
      and lk: "\<And>m u. lookup_value comps' m u =
            (if m < length ns div length (pattern enc)
             then merge_nibbles (field_nibbles enc u 0 (cycle_nibbles enc ns m))
             else None)"
      and fin: "create_message_pairs_from_components comps' = Inr msgs"
      and chunk: "encode_chunk enc ns =
          Some (Inr (msgs,
            (if drop (length (pattern enc) * (length ns div length (pattern enc))) ns \<noteq> []
             then Some \<lparr>bits = concat (map (\<lambda>n. format_04b (uint n))
                            (drop (length (pattern enc) * (length ns div length (pattern enc))) ns)),
                        pattern_position = length comps' mod length (pattern enc)\<rparr>
             else None),
            drop (length (pattern enc) * (length ns div length (pattern enc))) ns))"
    have stq: "(ns', comps, k) =
        (drop (length (pattern enc) * (length ns div length (pattern enc))) ns,
         comps', length ns div length (pattern enc))"
      using run run' by (simp only: option.inject sum.inject)
    have eq: "comps' = comps"
      using stq by (simp only: prod.inject)
    have ns': "drop (length (pattern enc) * (length ns div length (pattern enc))) ns = ns'"
      using stq by (simp only: prod.inject)
    have nonneg: "0 \<le> x" if "lookup_value comps mid u = Some x" for u x
    proof -
      from that have "merge_nibbles (field_nibbles enc u 0 (cycle_nibbles enc ns mid)) = Some x"
        unfolding eq [symmetric] lk by (simp split: if_splits)
      then show ?thesis by (rule merge_field_nonneg)
    qed
    have pair: "message_pair comps mid =
      Inr (Some (\<lparr>msg_type = note_on, channel = min c 15, note_num = min n 127,
                   velocity = min v 127, time = of_int t\<rparr>,
                 \<lparr>msg_type = note_off, channel = min c 15, note_num = min n 127,
                   velocity = 0, time = calculate_note_length l\<rparr>))"
      by (rule message_pair_complete [OF d [unfolded eq] c n v t l nonneg [OF c] nonneg [OF n]
            nonneg [OF v]])
    have "(\<lparr>msg_type = note_on, channel = min c 15, note_num = min n 127,
                   velocity = min v 127, time = of_int t\<rparr>,
               \<lparr>msg_type = note_off, channel = min c 15, note_num = min n 127,
                   velocity = 0, time = calculate_note_length l\<rparr>) \<in> set msgs"
      by (rule finalizer_emits [OF fin [unfolded eq] lookup_value_mid [OF c] pair])
    with pair chunk [unfolded ns'] show ?thesis by blast
  qed
qed

theorem C4_clamping_witness:
  "MidiEncoder_init ''ccnnvvtl'' = Inr \<lparr>pattern = ''ccnnvvtl''\<rparr>
   \<and> message_pair
        [\<lparr>message_id = 0, component_type = CHANNEL, cvalue = 18\<rparr>,
         \<lparr>message_id = 0, component_type = NOTE, cvalue = 153\<rparr>,
         \<lparr>message_id = 0, component_type = VELOCITY, cvalue = 255\<rparr>,
         \<lparr>message_id = 0, component_type = TIMING, cvalue = 4\<rparr>,
         \<lparr>message_id = 0, component_type = LENGTH_TARGET, cvalue = 10\<rparr>] 0 =
       Inr (Some (\<lparr>msg_type = note_on, channel = 15, note_num = 127, velocity = 127, time = 4\<rparr>,
                  \<lparr>msg_type = note_off, channel = 15, note_num = 127, velocity = 0,
                    time = 0.03125\<rparr>))
   \<and> (\<exists>msgs rem. encode_chunk \<lparr>pattern = ''ccnnvvtl''\<rparr> [1, 2, 9, 9, 15, 15, 4, 10] =
          Some (Inr (msgs, rem, []))
        \<and> (\<lparr>msg_type = note_on, channel = 15, note_num = 127, velocity = 127, time = 4\<rparr>,
             \<lparr>msg_type = note_off, channel = 15, note_num = 127, velocity = 0,
               time = 0.03125\<rparr>) \<in> set msgs)"
proof -
  let ?comps = "[\<lparr>message_id = 0, component_type = CHANNEL, cvalue = 18\<rparr>,
         \<lparr>message_id = 0, component_type = NOTE, cvalue = 153\<rparr>,
         \<lparr>message_id = 0, component_type = VELOCITY, cvalue = 255\<rparr>,
         \<lparr>message_id = 0, component_type = TIMING, cvalue = 4\<rparr>,
         \<lparr>message_id = 0, component_type = LENGTH_TARGET, cvalue = 10\<rparr>]"
  have h: "MidiEncoder_init ''ccnnvvtl'' = Inr \<lparr>pattern = ''ccnnvvtl''\<rparr>" by code_simp
  have run: "encode_loop \<lparr>pattern = ''ccnnvvtl''\<rparr> [1, 2, 9, 9, 15, 15, 4, 10] [] 0 =
      Some (Inr ([], ?comps, 1))" by code_simp
  have c: "lookup_value ?comps 0 CHANNEL = Some 18" by code_simp
  have n: "lookup_value ?comps 0 NOTE = Some 153" by code_simp
  have v: "lookup_value ?comps 0 VELOCITY = Some 255" by code_simp
  have t: "lookup_value ?comps 0 TIMING = Some 4" by code_simp
  have l: "lookup_value ?comps 0 LENGTH_TARGET = Some 10" by code_simp
  have d: "calculate_note_length 10 = 0.03125" by code_simp
  show ?thesis
    using h C4_clamping [OF h run c n v t l] by (simp add: d)
qed

text \<open>
  C8. The list of event pairs that a call returns is in strictly ascending order of the
  message ids: there is a list \<open>ids\<close> of message ids, as long as the returned list, such
  that the pair at position \<open>i\<close> is the pair that the finalizer builds from the record
  \<open>ids ! i\<close>, the ids are strictly ascending along the list, and they are exactly the ids
  of the complete records.
\<close>

theorem C8_ascending_record_ids:
  assumes res: "encode_chunk enc ns = Some (Inr (msgs, rem, ns'))"
  shows "\<exists>comps k ids. encode_loop enc ns [] 0 = Some (Inr (ns', comps, k))
           \<and> length ids = length msgs
           \<and> (\<forall>i < length msgs. message_pair comps (ids ! i) = Inr (Some (msgs ! i)))
           \<and> (\<forall>i j. i < j \<and> j < length ids \<longrightarrow> ids ! i < ids ! j)
           \<and> set ids = {mid \<in> message_id ` set comps. \<exists>pr. message_pair comps mid = Inr (Some pr)}"
proof -
  from res obtain comps k where run: "encode_loop enc ns [] 0 = Some (Inr (ns', comps, k))"
    and fin: "create_message_pairs_from_components comps = Inr msgs"
    by (auto simp: encode_chunk_def split: if_splits option.splits sum.splits)
  let ?ids = "filter (\<lambda>mid. message_pair comps mid \<noteq> Inr None)
                (sort (remdups (map message_id comps)))"
  have m: "map (message_pair comps) ?ids = map (\<lambda>p. Inr (Some p)) msgs"
    by (rule finalizer_order [OF fin])
  have len: "length ?ids = length msgs"
    using arg_cong [OF m, of length] by simp
  have nth: "message_pair comps (?ids ! i) = Inr (Some (msgs ! i))" if "i < length msgs" for i
    using arg_cong [OF m, of "\<lambda>xs. xs ! i"] that len by simp
  have "sorted_wrt (<) ?ids"
    by (rule sorted_wrt_filter [OF sorted_ids])
  then have asc: "?ids ! i < ?ids ! j" if "i < j" "j < length ?ids" for i j
    using that by (rule sorted_wrt_nth_less)
  have st: "set ?ids = {mid \<in> message_id ` set comps. \<exists>pr. message_pair comps mid = Inr (Some pr)}"
  proof (intro set_eqI iffI)
    fix mid assume a: "mid \<in> set ?ids"
    then obtain i where i: "i < length ?ids" and e: "?ids ! i = mid"
      by (metis in_set_conv_nth)
    from nth [of i] i len e have "message_pair comps mid = Inr (Some (msgs ! i))" by simp
    with a show "mid \<in> {mid \<in> message_id ` set comps. \<exists>pr. message_pair comps mid = Inr (Some pr)}"
      by auto
  next
    fix mid assume "mid \<in> {mid \<in> message_id ` set comps. \<exists>pr. message_pair comps mid = Inr (Some pr)}"
    then show "mid \<in> set ?ids" by auto
  qed
  from run len nth asc st show ?thesis by blast
qed

theorem C8_ascending_record_ids_witness:
  "encode_chunk \<lparr>pattern = ''cnvtl''\<rparr> [0, 3, 12, 4, 0, 1, 3, 14, 4, 1] =
     Some (Inr ([(\<lparr>msg_type = note_on, channel = 0, note_num = 3, velocity = 12, time = 4\<rparr>,
                  \<lparr>msg_type = note_off, channel = 0, note_num = 3, velocity = 0, time = 1\<rparr>),
                 (\<lparr>msg_type = note_on, channel = 1, note_num = 3, velocity = 14, time = 4\<rparr>,
                  \<lparr>msg_type = note_off, channel = 1, note_num = 3, velocity = 0, time = 0.75\<rparr>)],
                None, []))
   \<and> (\<exists>comps k ids.
         encode_loop \<lparr>pattern = ''cnvtl''\<rparr> [0, 3, 12, 4, 0, 1, 3, 14, 4, 1] [] 0 =
           Some (Inr ([], comps, k))
         \<and> length ids = 2 \<and> ids ! 0 < ids ! 1
         \<and> message_pair comps (ids ! 1) =
             Inr (Some (\<lparr>msg_type = note_on, channel = 1, note_num = 3, velocity = 14, time = 4\<rparr>,
                  \<lparr>msg_type = note_off, channel = 1, note_num = 3, velocity = 0, time = 0.75\<rparr>)))"
proof -
  let ?p0 = "(\<lparr>msg_type = note_on, channel = 0, note_num = 3, velocity = 12, time = 4\<rparr>,
                  \<lparr>msg_type = note_off, channel = 0, note_num = 3, velocity = 0, time = 1\<rparr>)"
  let ?p1 = "(\<lparr>msg_type = note_on, channel = 1, note_num = 3, velocity = 14, time = 4\<rparr>,
                  \<lparr>msg_type = note_off, channel = 1, note_num = 3, velocity = 0, time = 0.75\<rparr>)"
  have r: "encode_chunk \<lparr>pattern = ''cnvtl''\<rparr> [0, 3, 12, 4, 0, 1, 3, 14, 4, 1] =
     Some (Inr ([?p0, ?p1], None, []))"
    by code_simp
  from C8_ascending_record_ids [OF r] obtain comps k ids where
    run: "encode_loop \<lparr>pattern = ''cnvtl''\<rparr> [0, 3, 12, 4, 0, 1, 3, 14, 4, 1] [] 0 =
           Some (Inr ([], comps, k))"
    and len: "length ids = length [?p0, ?p1]"
    and nth: "\<forall>i < length [?p0, ?p1]. message_pair comps (ids ! i) = Inr (Some ([?p0, ?p1] ! i))"
    and asc: "\<forall>i j. i < j \<and> j < length ids \<longrightarrow> ids ! i < ids ! j"
    by blast
  from len have l2: "length ids = 2" by simp
  from asc l2 have a: "ids ! 0 < ids ! 1" by simp
  from nth have n1: "message_pair comps (ids ! 1) = Inr (Some ?p1)" by simp
  from r run l2 a n1 show ?thesis by blast
qed




text \<open>
  C2. A cycle of exactly pattern-length nibbles is processed under the message id \<open>r\<close>
  position by position. At position \<open>i\<close>, with \<open>t\<close> the field kind of the pattern symbol
  there: if a component with the key \<open>(r, t)\<close> exists, its value \<open>old\<close> is replaced by
  \<open>(old << 4) | nibble\<close>, and if none exists one is created with the value of the
  nibble; the components of the other kinds keep their values, and the keys stay
  distinct. So the cycle ends with one component for each kind of the pattern, all under
  \<open>r\<close>, whose value is the merge of the nibbles at the positions of its symbol; a symbol
  that stands \<open>k\<close> times in the pattern gives a value of \<open>4 * k\<close> bits, and a pattern
  with each symbol once gives values from 0 to 15.
\<close>

theorem C2_shift_and_merge:
  assumes init: "MidiEncoder_init p = Inr enc" and len: "length ns = length p"
  shows "(\<forall>i < length p. \<exists>before after t.
            components_loop enc r 0 (take i ns) [] = Inr before
          \<and> components_loop enc r 0 (take (Suc i) ns) [] = Inr after
          \<and> NibbleTarget_of (p ! i) = Inr t
          \<and> lookup_value after r t =
              Some (case lookup_value before r t of
                      None \<Rightarrow> uint (ns ! i)
                    | Some old \<Rightarrow> push_bit 4 old OR uint (ns ! i))
          \<and> (\<forall>u. u \<noteq> t \<longrightarrow> lookup_value after r u = lookup_value before r u)
          \<and> keys_distinct after)
       \<and> (\<exists>comps. create_message_components enc ns r = Inr comps
          \<and> keys_distinct comps
          \<and> (\<forall>c \<in> set comps. message_id c = r)
          \<and> (\<forall>t. lookup_value comps r t = merge_nibbles (field_nibbles enc t 0 ns))
          \<and> (\<forall>t v. lookup_value comps r t = Some v \<longrightarrow>
                0 \<le> v \<and> v < 2 ^ (4 * count_list p (symbol_of t)))
          \<and> (distinct p \<longrightarrow> (\<forall>c \<in> set comps. 0 \<le> cvalue c \<and> cvalue c \<le> 15)))"
proof (intro conjI allI impI)
  from init_valid [OF init] have p: "pattern enc = p" and v: "valid_pattern (pattern enc)"
    by simp_all
  {
    fix i assume i: "i < length p"
    then have ip: "i < length (pattern enc)" and ins: "i < length ns" by (simp_all add: p len)
    have tk: "take (Suc i) ns = take i ns @ [ns ! i]"
      by (rule take_Suc_conv_app_nth [OF ins])
    have li: "length (take i ns) = i" using ins by simp
    have le: "0 + length (take i ns) \<le> length (pattern enc)" using ip li by simp
    have d0: "keys_distinct []" by (simp add: keys_distinct_def)
    from components_loop_inv [OF v le d0, of r]
    obtain before where b: "components_loop enc r 0 (take i ns) [] = Inr before"
      and db: "keys_distinct before"
      by blast
    from valid_pattern_nth [OF v ip] obtain t where t: "NibbleTarget_of (pattern enc ! i) = Inr t" ..
    from components_loop_step [OF ip t db, of r "ns ! i" "[]"]
    obtain after where a: "components_loop enc r i [ns ! i] before = Inr after"
      and da: "keys_distinct after"
      and la: "\<And>m u. lookup_value after m u =
                 (if m = r \<and> u = t then merge_step (lookup_value before r t) (uint (ns ! i))
                  else lookup_value before m u)"
      by auto
    have run: "components_loop enc r 0 (take (Suc i) ns) [] = Inr after"
      unfolding tk components_loop_append b li using a by simp
    have m: "lookup_value after r t =
              Some (case lookup_value before r t of
                      None \<Rightarrow> uint (ns ! i)
                    | Some old \<Rightarrow> push_bit 4 old OR uint (ns ! i))"
      by (cases "lookup_value before r t") (simp_all add: la merge_step_def)
    have o: "\<forall>u. u \<noteq> t \<longrightarrow> lookup_value after r u = lookup_value before r u"
      by (simp add: la)
    from b run t m o da
    show "\<exists>before after t.
            components_loop enc r 0 (take i ns) [] = Inr before
          \<and> components_loop enc r 0 (take (Suc i) ns) [] = Inr after
          \<and> NibbleTarget_of (p ! i) = Inr t
          \<and> lookup_value after r t =
              Some (case lookup_value before r t of
                      None \<Rightarrow> uint (ns ! i)
                    | Some old \<Rightarrow> push_bit 4 old OR uint (ns ! i))
          \<and> (\<forall>u. u \<noteq> t \<longrightarrow> lookup_value after r u = lookup_value before r u)
          \<and> keys_distinct after"
      unfolding p by blast
  }
  have len': "length ns = length (pattern enc)" by (simp add: len p)
  from create_message_components_inv [OF v len', of r]
  obtain comps where c: "create_message_components enc ns r = Inr comps"
    and d: "keys_distinct comps"
    and l: "\<And>m u. lookup_value comps m u =
                 (if m = r then merge_nibbles (field_nibbles enc u 0 ns) else None)"
    by blast
  have ids: "\<forall>c \<in> set comps. message_id c = r"
  proof
    fix x assume "x \<in> set comps"
    from lookup_value_member [OF d this] show "message_id x = r"
      by (simp add: l split: if_splits)
  qed
  have lr: "\<forall>t. lookup_value comps r t = merge_nibbles (field_nibbles enc t 0 ns)"
    by (simp add: l)
  have bound: "0 \<le> x \<and> x < 2 ^ (4 * count_list p (symbol_of t))"
    if "lookup_value comps r t = Some x" for t x
  proof -
    from that have "merge_nibbles (field_nibbles enc t 0 ns) = Some x" by (simp add: l)
    from merge_nibbles_bounds [OF field_nibbles_range this]
    show ?thesis by (simp add: field_nibbles_count [OF v len'] p)
  qed
  have small: "0 \<le> cvalue x \<and> cvalue x \<le> 15" if dp: "distinct p" and x: "x \<in> set comps" for x
  proof -
    from lookup_value_member [OF d x] ids x
    have "lookup_value comps r (component_type x) = Some (cvalue x)" by simp
    from bound [OF this]
    have b: "0 \<le> cvalue x" "cvalue x < 2 ^ (4 * count_list p (symbol_of (component_type x)))"
      by simp_all
    have "4 * count_list p (symbol_of (component_type x)) \<le> 4"
      using distinct_count_le1 [OF dp, of "symbol_of (component_type x)"] by simp
    then have "(2::int) ^ (4 * count_list p (symbol_of (component_type x))) \<le> 2 ^ 4"
      by (intro power_increasing) simp_all
    with b show ?thesis by simp
  qed
  from c d ids lr bound small
  show "\<exists>comps. create_message_components enc ns r = Inr comps
          \<and> keys_distinct comps
          \<and> (\<forall>c \<in> set comps. message_id c = r)
          \<and> (\<forall>t. lookup_value comps r t = merge_nibbles (field_nibbles enc t 0 ns))
          \<and> (\<forall>t v. lookup_value comps r t = Some v \<longrightarrow>
                0 \<le> v \<and> v < 2 ^ (4 * count_list p (symbol_of t)))
          \<and> (distinct p \<longrightarrow> (\<forall>c \<in> set comps. 0 \<le> cvalue c \<and> cvalue c \<le> 15))"
    by blast
qed

theorem C2_shift_and_merge_witness:
  "MidiEncoder_init ''nn'' = Inr \<lparr>pattern = ''nn''\<rparr>
   \<and> length [3, 12 :: Int4] = length ''nn''
   \<and> (\<exists>before after.
         components_loop \<lparr>pattern = ''nn''\<rparr> 0 0 (take 1 [3, 12]) [] = Inr before
       \<and> components_loop \<lparr>pattern = ''nn''\<rparr> 0 0 (take (Suc 1) [3, 12]) [] = Inr after
       \<and> lookup_value after 0 NOTE =
           Some (case lookup_value before 0 NOTE of
                   None \<Rightarrow> 12 | Some old \<Rightarrow> push_bit 4 old OR 12))
   \<and> (\<exists>comps. create_message_components \<lparr>pattern = ''nn''\<rparr> [3, 12] 0 = Inr comps
         \<and> lookup_value comps 0 NOTE = Some 60)
   \<and> distinct ''cnvtl''
   \<and> (\<exists>comps. create_message_components \<lparr>pattern = ''cnvtl''\<rparr> [0, 3, 12, 4, 0] 0 = Inr comps
         \<and> (\<forall>c \<in> set comps. 0 \<le> cvalue c \<and> cvalue c \<le> 15))"
proof -
  have h: "MidiEncoder_init ''nn'' = Inr \<lparr>pattern = ''nn''\<rparr>" by code_simp
  have l: "length [3, 12 :: Int4] = length ''nn''" by simp
  note nn = C2_shift_and_merge [OF h l, of 0]
  have i: "1 < length ''nn''" by simp
  have t: "NibbleTarget_of (''nn'' ! 1) = Inr NOTE" by code_simp
  have n: "uint ([3, 12 :: Int4] ! 1) = 12" by simp
  from nn i obtain before after u where
    b: "components_loop \<lparr>pattern = ''nn''\<rparr> 0 0 (take 1 [3, 12]) [] = Inr before"
    and a: "components_loop \<lparr>pattern = ''nn''\<rparr> 0 0 (take (Suc 1) [3, 12]) [] = Inr after"
    and u: "NibbleTarget_of (''nn'' ! 1) = Inr u"
    and m: "lookup_value after 0 u =
              Some (case lookup_value before 0 u of
                      None \<Rightarrow> uint ([3, 12 :: Int4] ! 1)
                    | Some old \<Rightarrow> push_bit 4 old OR uint ([3, 12 :: Int4] ! 1))"
    by blast
  from u t have "u = NOTE" by simp
  with m have m': "lookup_value after 0 NOTE =
           Some (case lookup_value before 0 NOTE of
                   None \<Rightarrow> 12 | Some old \<Rightarrow> push_bit 4 old OR 12)"
    unfolding n by simp
  from nn obtain comps where
    c: "create_message_components \<lparr>pattern = ''nn''\<rparr> [3, 12] 0 = Inr comps"
    and lk: "\<forall>t. lookup_value comps 0 t =
               merge_nibbles (field_nibbles \<lparr>pattern = ''nn''\<rparr> t 0 [3, 12])"
    by blast
  have "merge_nibbles (field_nibbles \<lparr>pattern = ''nn''\<rparr> NOTE 0 [3, 12]) = Some 60"
    by code_simp
  with lk have v: "lookup_value comps 0 NOTE = Some 60" by simp
  have h5: "MidiEncoder_init ''cnvtl'' = Inr \<lparr>pattern = ''cnvtl''\<rparr>" by code_simp
  have l5: "length [0, 3, 12, 4, 0 :: Int4] = length ''cnvtl''" by simp
  have d5: "distinct ''cnvtl''" by simp
  from C2_shift_and_merge [OF h5 l5, of 0] d5 obtain comps5 where
    c5: "create_message_components \<lparr>pattern = ''cnvtl''\<rparr> [0, 3, 12, 4, 0] 0 = Inr comps5"
    and s5: "\<forall>c \<in> set comps5. 0 \<le> cvalue c \<and> cvalue c \<le> 15"
    by blast
  from h l b a m' c v d5 c5 s5 show ?thesis by blast
qed

end
